theory Spec2Isabelle
  imports Main "HOL-Library.Word"
begin

section \<open>The circuit breaker of gobreaker.go\<close>

text \<open>
  A shallow embedding of \<^verbatim>\<open>src/gobreaker.go\<close>. The breaker is a Go struct behind a
  pointer, guarded by one mutex; every method that touches it runs under the lock, so each
  method is modelled as one atomic function from the breaker to the updated breaker.
  \<^item> \<^verbatim>\<open>uint32\<close> counters are \<open>32 word\<close> and the \<^verbatim>\<open>uint64\<close> generation is
    \<open>64 word\<close>: \<open>+ 1\<close> wraps as \<^verbatim>\<open>++\<close> does.
  \<^item> \<^verbatim>\<open>time.Time\<close> and \<^verbatim>\<open>time.Duration\<close> are \<open>int\<close> (nanoseconds); the zero
    \<^verbatim>\<open>time.Time\<close> is \<open>0\<close>, \<^verbatim>\<open>Before\<close> is \<open><\<close> and \<^verbatim>\<open>Add\<close> is \<open>+\<close>.
    Every call of \<^verbatim>\<open>time.Now()\<close> is a parameter \<open>now\<close> of the function that makes it.
  \<^item> A nil function value is \<open>None\<close>. The trip predicate and the classifier are pure
    functions. The observer callback has effects outside of the breaker only (it cannot call
    back into the breaker, whose lock is held): it is a function on a state \<open>'w\<close> of the
    outside world, which the model carries along with the breaker in the field \<open>world\<close>.
  \<^item> Go's \<^verbatim>\<open>error\<close> values are \<open>'e error option\<close> (\<open>None\<close> is nil), an
    \<^verbatim>\<open>interface{}\<close> result is \<open>'r option\<close>.
\<close>

subsection \<open>State, errors and Counts\<close>

datatype State = StateClosed | StateHalfOpen | StateOpen

datatype 'e error = ErrTooManyRequests | ErrOpenState | RequestError 'e

record Counts =
  Requests :: "32 word"
  TotalSuccesses :: "32 word"
  TotalFailures :: "32 word"
  ConsecutiveSuccesses :: "32 word"
  ConsecutiveFailures :: "32 word"

definition Counts_onRequest :: "Counts \<Rightarrow> Counts" where
  "Counts_onRequest c = c\<lparr>Requests := Requests c + 1\<rparr>"

definition Counts_onSuccess :: "Counts \<Rightarrow> Counts" where
  "Counts_onSuccess c =
     c\<lparr>TotalSuccesses := TotalSuccesses c + 1,
       ConsecutiveSuccesses := ConsecutiveSuccesses c + 1,
       ConsecutiveFailures := 0\<rparr>"

definition Counts_onFailure :: "Counts \<Rightarrow> Counts" where
  "Counts_onFailure c =
     c\<lparr>TotalFailures := TotalFailures c + 1,
       ConsecutiveFailures := ConsecutiveFailures c + 1,
       ConsecutiveSuccesses := 0\<rparr>"

definition Counts_clear :: "Counts \<Rightarrow> Counts" where
  "Counts_clear c =
     c\<lparr>Requests := 0, TotalSuccesses := 0, TotalFailures := 0,
       ConsecutiveSuccesses := 0, ConsecutiveFailures := 0\<rparr>"

text \<open>The zero value of the struct.\<close>

definition zeroCounts :: Counts where
  "zeroCounts =
     \<lparr>Requests = 0, TotalSuccesses = 0, TotalFailures = 0,
      ConsecutiveSuccesses = 0, ConsecutiveFailures = 0\<rparr>"

subsection \<open>Settings and the breaker\<close>

record ('e, 'w) Settings =
  Name :: string
  MaxRequests :: "32 word"
  Interval :: int
  Timeout :: int
  ReadyToTrip :: "(Counts \<Rightarrow> bool) option"
  OnStateChange :: "(string \<Rightarrow> State \<Rightarrow> State \<Rightarrow> 'w \<Rightarrow> 'w) option"
  IsSuccessful :: "('e error option \<Rightarrow> bool) option"

record ('e, 'w) CircuitBreaker =
  name :: string
  maxRequests :: "32 word"
  interval :: int
  timeout :: int
  readyToTrip :: "Counts \<Rightarrow> bool"
  isSuccessful :: "'e error option \<Rightarrow> bool"
  onStateChange :: "(string \<Rightarrow> State \<Rightarrow> State \<Rightarrow> 'w \<Rightarrow> 'w) option"
  state :: State
  generation :: "64 word"
  counts :: Counts
  expiry :: int
  world :: 'w

text \<open>\<^verbatim>\<open>time.Duration(0) * time.Second\<close> and \<^verbatim>\<open>time.Duration(60) * time.Second\<close>,
  in nanoseconds.\<close>

definition defaultInterval :: int where
  "defaultInterval = 0 * 1000000000"

definition defaultTimeout :: int where
  "defaultTimeout = 60 * 1000000000"

definition defaultReadyToTrip :: "Counts \<Rightarrow> bool" where
  "defaultReadyToTrip c = (ConsecutiveFailures c > 5)"

definition defaultIsSuccessful :: "'e error option \<Rightarrow> bool" where
  "defaultIsSuccessful err = (err = None)"

definition toNewGeneration :: "('e, 'w) CircuitBreaker \<Rightarrow> int \<Rightarrow> ('e, 'w) CircuitBreaker" where
  "toNewGeneration b now =
     (let b1 = b\<lparr>generation := generation b + 1\<rparr>;
          b2 = b1\<lparr>counts := Counts_clear (counts b1)\<rparr>
      in case state b2 of
           StateClosed \<Rightarrow>
             if interval b2 = 0 then b2\<lparr>expiry := 0\<rparr>
             else b2\<lparr>expiry := now + interval b2\<rparr>
         | StateOpen \<Rightarrow> b2\<lparr>expiry := now + timeout b2\<rparr>
         | StateHalfOpen \<Rightarrow> b2\<lparr>expiry := 0\<rparr>)"

definition setState ::
  "('e, 'w) CircuitBreaker \<Rightarrow> State \<Rightarrow> int \<Rightarrow> ('e, 'w) CircuitBreaker" where
  "setState b s now =
     (if state b = s then b
      else
        let prev = state b;
            b1 = b\<lparr>state := s\<rparr>;
            b2 = toNewGeneration b1 now
        in case onStateChange b2 of
             None \<Rightarrow> b2
           | Some f \<Rightarrow> b2\<lparr>world := f (name b2) prev s (world b2)\<rparr>)"

text \<open>\<^verbatim>\<open>currentState\<close> returns the state and the generation, and leaves the breaker
  updated: the first component is the breaker after the call.\<close>

definition currentState ::
  "('e, 'w) CircuitBreaker \<Rightarrow> int \<Rightarrow> ('e, 'w) CircuitBreaker \<times> State \<times> 64 word" where
  "currentState b now =
     (let b' = (case state b of
                  StateClosed \<Rightarrow>
                    if expiry b \<noteq> 0 \<and> expiry b < now then toNewGeneration b now else b
                | StateOpen \<Rightarrow>
                    if expiry b < now then setState b StateHalfOpen now else b
                | StateHalfOpen \<Rightarrow> b)
      in (b', state b', generation b'))"

definition NewCircuitBreaker ::
  "('e, 'w) Settings \<Rightarrow> int \<Rightarrow> 'w \<Rightarrow> ('e, 'w) CircuitBreaker" where
  "NewCircuitBreaker st now w =
     toNewGeneration
       \<lparr>name = Name st,
        maxRequests = (if MaxRequests st = 0 then 1 else MaxRequests st),
        interval = (if Interval st \<le> 0 then defaultInterval else Interval st),
        timeout = (if Timeout st \<le> 0 then defaultTimeout else Timeout st),
        readyToTrip = (case ReadyToTrip st of None \<Rightarrow> defaultReadyToTrip | Some f \<Rightarrow> f),
        isSuccessful = (case IsSuccessful st of None \<Rightarrow> defaultIsSuccessful | Some f \<Rightarrow> f),
        onStateChange = OnStateChange st,
        state = StateClosed,
        generation = 0,
        counts = zeroCounts,
        expiry = 0,
        world = w\<rparr>
       now"

definition CircuitBreaker_Name :: "('e, 'w) CircuitBreaker \<Rightarrow> string" where
  "CircuitBreaker_Name b = name b"

definition CircuitBreaker_State ::
  "('e, 'w) CircuitBreaker \<Rightarrow> int \<Rightarrow> ('e, 'w) CircuitBreaker \<times> State" where
  "CircuitBreaker_State b now = (case currentState b now of (b', s, _) \<Rightarrow> (b', s))"

definition CircuitBreaker_Counts :: "('e, 'w) CircuitBreaker \<Rightarrow> Counts" where
  "CircuitBreaker_Counts b = counts b"

subsection \<open>The two phases of a request\<close>

definition beforeRequest ::
  "('e, 'w) CircuitBreaker \<Rightarrow> int \<Rightarrow> ('e, 'w) CircuitBreaker \<times> 64 word \<times> 'e error option" where
  "beforeRequest b now =
     (case currentState b now of
        (b1, s, gen) \<Rightarrow>
          if s = StateOpen then (b1, gen, Some ErrOpenState)
          else if s = StateHalfOpen \<and> Requests (counts b1) \<ge> maxRequests b1
            then (b1, gen, Some ErrTooManyRequests)
          else (b1\<lparr>counts := Counts_onRequest (counts b1)\<rparr>, gen, None))"

definition onSuccess ::
  "('e, 'w) CircuitBreaker \<Rightarrow> State \<Rightarrow> int \<Rightarrow> ('e, 'w) CircuitBreaker" where
  "onSuccess b s now =
     (case s of
        StateClosed \<Rightarrow> b\<lparr>counts := Counts_onSuccess (counts b)\<rparr>
      | StateHalfOpen \<Rightarrow>
          (let b1 = b\<lparr>counts := Counts_onSuccess (counts b)\<rparr>
           in if ConsecutiveSuccesses (counts b1) \<ge> maxRequests b1
              then setState b1 StateClosed now else b1)
      | StateOpen \<Rightarrow> b)"

definition onFailure ::
  "('e, 'w) CircuitBreaker \<Rightarrow> State \<Rightarrow> int \<Rightarrow> ('e, 'w) CircuitBreaker" where
  "onFailure b s now =
     (case s of
        StateClosed \<Rightarrow>
          (let b1 = b\<lparr>counts := Counts_onFailure (counts b)\<rparr>
           in if readyToTrip b1 (counts b1) then setState b1 StateOpen now else b1)
      | StateHalfOpen \<Rightarrow> setState b StateOpen now
      | StateOpen \<Rightarrow> b)"

definition afterRequest ::
  "('e, 'w) CircuitBreaker \<Rightarrow> 64 word \<Rightarrow> bool \<Rightarrow> int \<Rightarrow> ('e, 'w) CircuitBreaker" where
  "afterRequest b before success now =
     (case currentState b now of
        (b1, s, gen) \<Rightarrow>
          if gen \<noteq> before then b1
          else if success then onSuccess b1 s now
          else onFailure b1 s now)"

subsection \<open>Execute\<close>

text \<open>
  The wrapped call runs outside of the lock. What it does is its outcome, a return of a
  (result, error) pair or a panic with a value, together with what has happened to the
  breaker by the time it ends (other callers' operations, which run while it does): it is a
  function from the breaker after admission to the outcome and the breaker then.
  \<open>Panics v\<close> is a panic whose value \<^verbatim>\<open>recover()\<close> delivers as \<open>v\<close>, which is not nil
  (from Go 1.21 on, \<^verbatim>\<open>panic(nil)\<close> is delivered as a \<^verbatim>\<open>*runtime.PanicNilError\<close>).
  The deferred function runs on every exit after admission: on a return \<^verbatim>\<open>recover()\<close> is
  nil and it does nothing, on a panic it records the failure and panics again with \<open>e\<close>.
  \<open>now\<close> is the time of admission, \<open>now'\<close> the time at which the outcome is recorded.
\<close>

datatype ('r, 'e, 'p) outcome = Returns "'r option" "'e error option" | Panics 'p

definition Execute ::
  "('e, 'w) CircuitBreaker \<Rightarrow> int \<Rightarrow>
   (('e, 'w) CircuitBreaker \<Rightarrow> ('r, 'e, 'p) outcome \<times> ('e, 'w) CircuitBreaker) \<Rightarrow> int \<Rightarrow>
   ('e, 'w) CircuitBreaker \<times> ('r, 'e, 'p) outcome" where
  "Execute b now req now' =
     (case beforeRequest b now of
        (b1, gen, Some err) \<Rightarrow> (b1, Returns None (Some err))
      | (b1, gen, None) \<Rightarrow>
          (case req b1 of
             (Returns result err, b2) \<Rightarrow>
               (afterRequest b2 gen (isSuccessful b2 err) now', Returns result err)
           | (Panics e, b2) \<Rightarrow>
               (afterRequest b2 gen False now', Panics e)))"

subsection \<open>The two-step breaker\<close>

record ('e, 'w) TwoStepCircuitBreaker =
  cb :: "('e, 'w) CircuitBreaker"

definition NewTwoStepCircuitBreaker ::
  "('e, 'w) Settings \<Rightarrow> int \<Rightarrow> 'w \<Rightarrow> ('e, 'w) TwoStepCircuitBreaker" where
  "NewTwoStepCircuitBreaker st now w = \<lparr>cb = NewCircuitBreaker st now w\<rparr>"

text \<open>The handle that \<^verbatim>\<open>Allow\<close> returns is a closure over the breaker's pointer and the
  generation: called with the verdict, at a time \<open>now'\<close>, it updates the breaker.\<close>

definition Allow ::
  "('e, 'w) TwoStepCircuitBreaker \<Rightarrow> int \<Rightarrow>
   ('e, 'w) TwoStepCircuitBreaker \<times>
   ('e error + (bool \<Rightarrow> int \<Rightarrow> ('e, 'w) TwoStepCircuitBreaker \<Rightarrow> ('e, 'w) TwoStepCircuitBreaker))" where
  "Allow tscb now =
     (case beforeRequest (cb tscb) now of
        (b1, gen, Some err) \<Rightarrow> (tscb\<lparr>cb := b1\<rparr>, Inl err)
      | (b1, gen, None) \<Rightarrow>
          (tscb\<lparr>cb := b1\<rparr>,
           Inr (\<lambda>success now' t. t\<lparr>cb := afterRequest (cb t) gen success now'\<rparr>)))"

subsection \<open>Sequences of operations\<close>

text \<open>
  The operations that reach the breaker's mutable fields: the exported \<^verbatim>\<open>State\<close>, the two
  phases of a request (what \<^verbatim>\<open>Allow\<close> and its handle run), \<^verbatim>\<open>Execute\<close> with a call
  that does not touch the breaker itself, and the two internal steps every state change and
  every clearing goes through. Other callers' operations while a wrapped call is running are
  the calls between a \<open>CallBeforeRequest\<close> and its \<open>CallAfterRequest\<close>.
\<close>

datatype ('r, 'e, 'p) call =
    CallState int
  | CallBeforeRequest int
  | CallAfterRequest "64 word" bool int
  | CallExecute int "('r, 'e, 'p) outcome" int
  | StepSetState State int
  | StepToNewGeneration int

fun perform :: "('e, 'w) CircuitBreaker \<Rightarrow> ('r, 'e, 'p) call \<Rightarrow> ('e, 'w) CircuitBreaker" where
  "perform b (CallState now) = fst (CircuitBreaker_State b now)"
| "perform b (CallBeforeRequest now) = fst (beforeRequest b now)"
| "perform b (CallAfterRequest before success now) = afterRequest b before success now"
| "perform b (CallExecute now out now') = fst (Execute b now (\<lambda>c. (out, c)) now')"
| "perform b (StepSetState s now) = setState b s now"
| "perform b (StepToNewGeneration now) = toNewGeneration b now"

definition performAll ::
  "('e, 'w) CircuitBreaker \<Rightarrow> ('r, 'e, 'p) call list \<Rightarrow> ('e, 'w) CircuitBreaker" where
  "performAll b cs = foldl perform b cs"

text \<open>Calls of \<^verbatim>\<open>Execute\<close> one after the other, each with a request that returns the
  error \<open>e\<close>; the list gives the two clock readings of each call.\<close>

definition failedCalls ::
  "'r option \<Rightarrow> 'e error \<Rightarrow> (int \<times> int) list \<Rightarrow> ('r, 'e, 'p) call list" where
  "failedCalls r e ts = map (\<lambda>(t, t'). CallExecute t (Returns r (Some e)) t') ts"

text \<open>The two consecutive counters are never both positive.\<close>

definition exclusive :: "Counts \<Rightarrow> bool" where
  "exclusive c = (ConsecutiveSuccesses c = 0 \<or> ConsecutiveFailures c = 0)"

text \<open>Without a clearing interval, the expiry of a closed breaker is the zero time.\<close>

definition noInterval :: "('e, 'w) CircuitBreaker \<Rightarrow> bool" where
  "noInterval b = (interval b = 0 \<and> (state b = StateClosed \<longrightarrow> expiry b = 0))"

subsection \<open>Concrete breakers\<close>

text \<open>
  A breaker with the default policy whose observer appends each notification to a log, in
  each of the three states: as constructed at time 0, tripped at time 0 (so that it expires
  at 60 s), and sent to half-open at 70 s.
\<close>

definition demoSettings :: "32 word \<Rightarrow> (unit, (string \<times> State \<times> State) list) Settings" where
  "demoSettings m =
     \<lparr>Name = ''demo'', MaxRequests = m, Interval = 0, Timeout = 0,
      ReadyToTrip = None,
      OnStateChange = Some (\<lambda>n from to log. log @ [(n, from, to)]),
      IsSuccessful = None\<rparr>"

definition demoClosed :: "32 word \<Rightarrow> (unit, (string \<times> State \<times> State) list) CircuitBreaker" where
  "demoClosed m = NewCircuitBreaker (demoSettings m) 0 []"

definition demoOpen :: "32 word \<Rightarrow> (unit, (string \<times> State \<times> State) list) CircuitBreaker" where
  "demoOpen m = setState (demoClosed m) StateOpen 0"

definition demoHalfOpen :: "32 word \<Rightarrow> (unit, (string \<times> State \<times> State) list) CircuitBreaker" where
  "demoHalfOpen m = setState (demoOpen m) StateHalfOpen 70000000000"

text \<open>A breaker whose trip predicate is ``more than \<open>2\<^sup>3\<^sup>2 - 1\<close> consecutive
  failures'', the largest threshold a \<^verbatim>\<open>uint32\<close> can hold.\<close>

definition maxThresholdSettings :: "(unit, unit) Settings" where
  "maxThresholdSettings =
     \<lparr>Name = ''max'', MaxRequests = 1, Interval = 0, Timeout = 0,
      ReadyToTrip = Some (\<lambda>c. 4294967295 < ConsecutiveFailures c),
      OnStateChange = None, IsSuccessful = None\<rparr>"

lemmas demo_defs = demoSettings_def demoClosed_def demoOpen_def demoHalfOpen_def
  NewCircuitBreaker_def toNewGeneration_def setState_def Counts_clear_def zeroCounts_def
  defaultInterval_def defaultTimeout_def

lemmas request_defs = currentState_def beforeRequest_def afterRequest_def onSuccess_def
  onFailure_def Execute_def Counts_onRequest_def Counts_onSuccess_def Counts_onFailure_def
  defaultReadyToTrip_def defaultIsSuccessful_def CircuitBreaker_State_def performAll_def

section \<open>Basic facts\<close>

subsection \<open>Counts\<close>

lemma Counts_clear_zero: "Counts_clear c = zeroCounts"
  by (cases c) (simp add: Counts_clear_def zeroCounts_def)

lemma Counts_onSuccess_fields:
  "Requests (Counts_onSuccess c) = Requests c"
  "TotalSuccesses (Counts_onSuccess c) = TotalSuccesses c + 1"
  "TotalFailures (Counts_onSuccess c) = TotalFailures c"
  "ConsecutiveSuccesses (Counts_onSuccess c) = ConsecutiveSuccesses c + 1"
  "ConsecutiveFailures (Counts_onSuccess c) = 0"
  by (simp_all add: Counts_onSuccess_def)

lemma Counts_onFailure_fields:
  "Requests (Counts_onFailure c) = Requests c"
  "TotalSuccesses (Counts_onFailure c) = TotalSuccesses c"
  "TotalFailures (Counts_onFailure c) = TotalFailures c + 1"
  "ConsecutiveSuccesses (Counts_onFailure c) = 0"
  "ConsecutiveFailures (Counts_onFailure c) = ConsecutiveFailures c + 1"
  by (simp_all add: Counts_onFailure_def)

subsection \<open>Generations and transitions\<close>

lemma toNewGeneration_fields:
  "state (toNewGeneration b now) = state b"
  "generation (toNewGeneration b now) = generation b + 1"
  "counts (toNewGeneration b now) = zeroCounts"
  "world (toNewGeneration b now) = world b"
  "name (toNewGeneration b now) = name b"
  "maxRequests (toNewGeneration b now) = maxRequests b"
  "interval (toNewGeneration b now) = interval b"
  "timeout (toNewGeneration b now) = timeout b"
  "readyToTrip (toNewGeneration b now) = readyToTrip b"
  "isSuccessful (toNewGeneration b now) = isSuccessful b"
  "onStateChange (toNewGeneration b now) = onStateChange b"
  "expiry (toNewGeneration b now) =
     (case state b of
        StateClosed \<Rightarrow> if interval b = 0 then 0 else now + interval b
      | StateOpen \<Rightarrow> now + timeout b
      | StateHalfOpen \<Rightarrow> 0)"
  by (simp_all add: toNewGeneration_def Counts_clear_zero Let_def split: State.splits)

lemma setState_same: "state b = s \<Longrightarrow> setState b s now = b"
  by (simp add: setState_def)

lemma setState_fields:
  "state b \<noteq> s \<Longrightarrow> state (setState b s now) = s"
  "state b \<noteq> s \<Longrightarrow> generation (setState b s now) = generation b + 1"
  "state b \<noteq> s \<Longrightarrow> counts (setState b s now) = zeroCounts"
  "state b \<noteq> s \<Longrightarrow> world (setState b s now) =
        (case onStateChange b of
           None \<Rightarrow> world b
         | Some f \<Rightarrow> f (name b) (state b) s (world b))"
  by (simp_all add: setState_def Let_def toNewGeneration_fields split: option.splits)

lemma setState_expiry:
  "state b \<noteq> s \<Longrightarrow> expiry (setState b s now) =
        (case s of
           StateClosed \<Rightarrow> if interval b = 0 then 0 else now + interval b
         | StateOpen \<Rightarrow> now + timeout b
         | StateHalfOpen \<Rightarrow> 0)"
  by (cases "onStateChange b"; cases s) (simp_all add: setState_def Let_def toNewGeneration_fields)

lemma setState_config:
  "name (setState b s now) = name b"
  "maxRequests (setState b s now) = maxRequests b"
  "interval (setState b s now) = interval b"
  "timeout (setState b s now) = timeout b"
  "readyToTrip (setState b s now) = readyToTrip b"
  "isSuccessful (setState b s now) = isSuccessful b"
  "onStateChange (setState b s now) = onStateChange b"
  by (cases "onStateChange b"; simp add: setState_def Let_def toNewGeneration_fields)+

subsection \<open>The lazy transition rule, case by case\<close>

lemma currentState_snd:
  "currentState b now = (b1, s, g) \<Longrightarrow> s = state b1 \<and> g = generation b1"
  by (auto simp: currentState_def Let_def)

lemma currentState_Open_due:
  "state b = StateOpen \<Longrightarrow> expiry b < now \<Longrightarrow>
   currentState b now = (setState b StateHalfOpen now, StateHalfOpen, generation b + 1)"
  by (simp add: currentState_def setState_fields)

lemma currentState_Open_wait:
  "state b = StateOpen \<Longrightarrow> \<not> expiry b < now \<Longrightarrow>
   currentState b now = (b, StateOpen, generation b)"
  by (simp add: currentState_def)

lemma currentState_HalfOpen:
  "state b = StateHalfOpen \<Longrightarrow> currentState b now = (b, StateHalfOpen, generation b)"
  by (simp add: currentState_def)

lemma currentState_Closed_due:
  "state b = StateClosed \<Longrightarrow> expiry b \<noteq> 0 \<Longrightarrow> expiry b < now \<Longrightarrow>
   currentState b now = (toNewGeneration b now, StateClosed, generation b + 1)"
  by (simp add: currentState_def toNewGeneration_fields)

lemma currentState_Closed_keep:
  "state b = StateClosed \<Longrightarrow> expiry b = 0 \<or> \<not> expiry b < now \<Longrightarrow>
   currentState b now = (b, StateClosed, generation b)"
  by (auto simp add: currentState_def)

subsection \<open>The consecutive counters exclude each other\<close>

lemma exclusive_zero: "exclusive zeroCounts"
  by (simp add: exclusive_def zeroCounts_def)

lemma exclusive_Counts:
  "exclusive (Counts_onSuccess c)"
  "exclusive (Counts_onFailure c)"
  "exclusive (Counts_clear c)"
  "exclusive c \<Longrightarrow> exclusive (Counts_onRequest c)"
  by (simp_all add: exclusive_def Counts_onSuccess_def Counts_onFailure_def Counts_clear_def
      Counts_onRequest_def)

lemma exclusive_toNewGeneration: "exclusive (counts (toNewGeneration b now))"
  by (simp add: toNewGeneration_fields exclusive_zero)

lemma exclusive_setState:
  "exclusive (counts b) \<Longrightarrow> exclusive (counts (setState b s now))"
  by (cases "state b = s") (simp_all add: setState_same setState_fields exclusive_zero)

lemma exclusive_currentState:
  "exclusive (counts b) \<Longrightarrow> exclusive (counts (fst (currentState b now)))"
  by (cases "state b")
    (simp_all add: currentState_def Let_def exclusive_toNewGeneration exclusive_setState)

lemma exclusive_beforeRequest:
  assumes "exclusive (counts b)"
  shows "exclusive (counts (fst (beforeRequest b now)))"
proof -
  obtain b1 s g where c: "currentState b now = (b1, s, g)"
    by (cases "currentState b now") auto
  have "exclusive (counts b1)"
    using exclusive_currentState [OF assms, of now] c by simp
  then show ?thesis
    by (simp add: beforeRequest_def c exclusive_Counts)
qed

lemma exclusive_onSuccess:
  "exclusive (counts b) \<Longrightarrow> exclusive (counts (onSuccess b s now))"
  by (cases s) (simp_all add: onSuccess_def Let_def exclusive_Counts exclusive_setState)

lemma exclusive_onFailure:
  "exclusive (counts b) \<Longrightarrow> exclusive (counts (onFailure b s now))"
  by (cases s) (simp_all add: onFailure_def Let_def exclusive_Counts exclusive_setState)

lemma exclusive_afterRequest:
  assumes "exclusive (counts b)"
  shows "exclusive (counts (afterRequest b before success now))"
proof -
  obtain b1 s g where c: "currentState b now = (b1, s, g)"
    by (cases "currentState b now") auto
  have "exclusive (counts b1)"
    using exclusive_currentState [OF assms, of now] c by simp
  then show ?thesis
    by (simp add: afterRequest_def c exclusive_onSuccess exclusive_onFailure)
qed

lemma exclusive_Execute:
  assumes "exclusive (counts b)"
  shows "exclusive (counts (fst (Execute b now (\<lambda>c. (out, c)) now')))"
proof -
  obtain b1 g err where c: "beforeRequest b now = (b1, g, err)"
    by (cases "beforeRequest b now") auto
  have "exclusive (counts b1)"
    using exclusive_beforeRequest [OF assms, of now] c by simp
  then show ?thesis
    by (cases err; cases out) (simp_all add: Execute_def c exclusive_afterRequest)
qed

lemma exclusive_perform:
  "exclusive (counts b) \<Longrightarrow> exclusive (counts (perform b c))"
  by (cases c)
    (simp_all add: CircuitBreaker_State_def split_beta exclusive_currentState
      exclusive_beforeRequest exclusive_afterRequest exclusive_Execute exclusive_setState
      exclusive_toNewGeneration)

lemma exclusive_performAll:
  "exclusive (counts b) \<Longrightarrow> exclusive (counts (performAll b cs))"
  unfolding performAll_def
  by (induction cs arbitrary: b) (simp_all add: exclusive_perform)

lemma exclusive_New: "exclusive (counts (NewCircuitBreaker st now w))"
  by (simp add: NewCircuitBreaker_def exclusive_toNewGeneration)

subsection \<open>A breaker without an interval\<close>

lemma noInterval_toNewGeneration:
  "interval b = 0 \<Longrightarrow> noInterval (toNewGeneration b now)"
  by (simp add: noInterval_def toNewGeneration_fields)

lemma noInterval_setState:
  "noInterval b \<Longrightarrow> noInterval (setState b s now)"
  by (cases "state b = s"; cases s)
    (simp_all add: setState_same noInterval_def setState_fields setState_expiry setState_config)

lemma noInterval_counts:
  "noInterval b \<Longrightarrow> noInterval (b\<lparr>counts := c\<rparr>)"
  by (simp add: noInterval_def)

lemma noInterval_currentState:
  "noInterval b \<Longrightarrow> noInterval (fst (currentState b now))"
  by (cases "state b")
    (simp_all add: currentState_def Let_def noInterval_setState, simp add: noInterval_def)

lemma noInterval_beforeRequest:
  assumes "noInterval b"
  shows "noInterval (fst (beforeRequest b now))"
proof -
  obtain b1 s g where c: "currentState b now = (b1, s, g)"
    by (cases "currentState b now") auto
  have "noInterval b1"
    using noInterval_currentState [OF assms, of now] c by simp
  then show ?thesis
    by (simp add: beforeRequest_def c noInterval_counts)
qed

lemma noInterval_onSuccess:
  "noInterval b \<Longrightarrow> noInterval (onSuccess b s now)"
  by (cases s) (simp_all add: onSuccess_def Let_def noInterval_counts noInterval_setState)

lemma noInterval_onFailure:
  "noInterval b \<Longrightarrow> noInterval (onFailure b s now)"
  by (cases s) (simp_all add: onFailure_def Let_def noInterval_counts noInterval_setState)

lemma noInterval_afterRequest:
  assumes "noInterval b"
  shows "noInterval (afterRequest b before success now)"
proof -
  obtain b1 s g where c: "currentState b now = (b1, s, g)"
    by (cases "currentState b now") auto
  have "noInterval b1"
    using noInterval_currentState [OF assms, of now] c by simp
  then show ?thesis
    by (simp add: afterRequest_def c noInterval_onSuccess noInterval_onFailure)
qed

lemma noInterval_Execute:
  assumes "noInterval b"
  shows "noInterval (fst (Execute b now (\<lambda>c. (out, c)) now'))"
proof -
  obtain b1 g err where c: "beforeRequest b now = (b1, g, err)"
    by (cases "beforeRequest b now") auto
  have "noInterval b1"
    using noInterval_beforeRequest [OF assms, of now] c by simp
  then show ?thesis
    by (cases err; cases out) (simp_all add: Execute_def c noInterval_afterRequest)
qed

lemma noInterval_perform:
  "noInterval b \<Longrightarrow> noInterval (perform b c)"
  by (cases c)
    (simp_all add: CircuitBreaker_State_def split_beta noInterval_currentState
      noInterval_beforeRequest noInterval_afterRequest noInterval_Execute noInterval_setState
      noInterval_toNewGeneration noInterval_def [of b])

lemma noInterval_performAll:
  "noInterval b \<Longrightarrow> noInterval (performAll b cs)"
  unfolding performAll_def
  by (induction cs arbitrary: b) (simp_all add: noInterval_perform)

lemma noInterval_New:
  "Interval st \<le> 0 \<Longrightarrow> noInterval (NewCircuitBreaker st now w)"
  by (simp add: NewCircuitBreaker_def noInterval_toNewGeneration defaultInterval_def)

lemma New_fields:
  "state (NewCircuitBreaker st now w) = StateClosed"
  "counts (NewCircuitBreaker st now w) = zeroCounts"
  "generation (NewCircuitBreaker st now w) = 1"
  "name (NewCircuitBreaker st now w) = Name st"
  "maxRequests (NewCircuitBreaker st now w) = (if MaxRequests st = 0 then 1 else MaxRequests st)"
  "interval (NewCircuitBreaker st now w) = (if Interval st \<le> 0 then 0 else Interval st)"
  "timeout (NewCircuitBreaker st now w) = (if Timeout st \<le> 0 then 60000000000 else Timeout st)"
  "readyToTrip (NewCircuitBreaker st now w) =
     (case ReadyToTrip st of None \<Rightarrow> defaultReadyToTrip | Some f \<Rightarrow> f)"
  "isSuccessful (NewCircuitBreaker st now w) =
     (case IsSuccessful st of None \<Rightarrow> defaultIsSuccessful | Some f \<Rightarrow> f)"
  "onStateChange (NewCircuitBreaker st now w) = OnStateChange st"
  "world (NewCircuitBreaker st now w) = w"
  by (simp_all add: NewCircuitBreaker_def toNewGeneration_fields defaultInterval_def
      defaultTimeout_def)

lemma New_State:
  "CircuitBreaker_State (NewCircuitBreaker st now w) now' = (b', s) \<Longrightarrow>
   s = StateClosed \<and> counts b' = zeroCounts"
  by (auto simp: CircuitBreaker_State_def currentState_def Let_def New_fields
      toNewGeneration_fields split: if_splits)

subsection \<open>Admission and a recorded success\<close>

lemma beforeRequest_admitted:
  "beforeRequest b now = (b1, gen, None) \<Longrightarrow>
   gen = generation b1 \<and> state b1 \<noteq> StateOpen \<and>
   counts b1 = Counts_onRequest (counts (fst (currentState b now)))"
  by (cases "currentState b now")
    (auto simp: beforeRequest_def dest: currentState_snd split: if_splits)

lemma success_recorded:
  assumes "state b \<noteq> StateOpen"
    and "generation (afterRequest b (generation b) True now) = generation b"
  shows "afterRequest b (generation b) True now = b\<lparr>counts := Counts_onSuccess (counts b)\<rparr>"
proof (cases "state b")
  case StateClosed
  show ?thesis
  proof (cases "expiry b \<noteq> 0 \<and> expiry b < now")
    case True
    then have "afterRequest b (generation b) True now = toNewGeneration b now"
      using StateClosed by (simp add: afterRequest_def currentState_Closed_due)
    then show ?thesis
      using assms(2) by (simp add: toNewGeneration_fields)
  next
    case False
    then show ?thesis
      using StateClosed by (simp add: afterRequest_def currentState_Closed_keep onSuccess_def)
  qed
next
  case StateHalfOpen
  let ?b1 = "b\<lparr>counts := Counts_onSuccess (counts b)\<rparr>"
  have a: "afterRequest b (generation b) True now =
      (if maxRequests b \<le> ConsecutiveSuccesses (counts b) + 1
       then setState ?b1 StateClosed now else ?b1)"
    using StateHalfOpen
    by (simp add: afterRequest_def currentState_HalfOpen onSuccess_def Let_def
        Counts_onSuccess_fields)
  show ?thesis
  proof (cases "maxRequests b \<le> ConsecutiveSuccesses (counts b) + 1")
    case True
    then have "generation (afterRequest b (generation b) True now) = generation b + 1"
      using StateHalfOpen by (simp add: a setState_fields)
    then show ?thesis using assms(2) by simp
  next
    case False
    then show ?thesis by (simp add: a)
  qed
next
  case StateOpen
  then show ?thesis using assms(1) by simp
qed

subsection \<open>Failed calls one after the other\<close>

lemma performAll_simps:
  "performAll b [] = b"
  "performAll b (c # cs) = performAll (perform b c) cs"
  "performAll b (cs @ ds) = performAll (performAll b cs) ds"
  by (simp_all add: performAll_def)

lemma failedCalls_simps:
  "failedCalls r e [] = []"
  "failedCalls r e ((t, t') # ts) = CallExecute t (Returns r (Some e)) t' # failedCalls r e ts"
  "failedCalls r e (ts @ us) = failedCalls r e ts @ failedCalls r e us"
  by (simp_all add: failedCalls_def)

lemma unat_succ_below:
  fixes x K :: "32 word"
  assumes "unat x < unat K"
  shows "unat (x + 1) = unat x + 1"
proof -
  have "unat K < 2 ^ 32"
    using unsigned_less [of K] by simp
  then have "unat x + unat (1 :: 32 word) < 2 ^ LENGTH(32)"
    using assms by simp
  then have "unat (x + 1) = unat x + unat (1 :: 32 word)"
    by (simp only: unat_add_lem)
  then show ?thesis by simp
qed

lemma failed_Closed_step:
  assumes "state b = StateClosed"
    and "expiry b = 0 \<or> (t \<le> expiry b \<and> t' \<le> expiry b)"
    and "\<not> isSuccessful b (Some e)"
  shows "perform b (CallExecute t (Returns r (Some e)) t') =
     (if readyToTrip b (Counts_onFailure (Counts_onRequest (counts b)))
      then setState (b\<lparr>counts := Counts_onFailure (Counts_onRequest (counts b))\<rparr>) StateOpen t'
      else b\<lparr>counts := Counts_onFailure (Counts_onRequest (counts b))\<rparr>)"
proof -
  let ?b1 = "b\<lparr>counts := Counts_onRequest (counts b)\<rparr>"
  have k: "expiry b = 0 \<or> \<not> expiry b < t" and k': "expiry ?b1 = 0 \<or> \<not> expiry ?b1 < t'"
    using assms(2) by auto
  have br: "beforeRequest b t = (?b1, generation b, None)"
    using assms(1) by (simp add: beforeRequest_def currentState_Closed_keep [OF assms(1) k])
  have s1: "state ?b1 = StateClosed"
    using assms(1) by simp
  have ar: "afterRequest ?b1 (generation b) False t' = onFailure ?b1 StateClosed t'"
    by (simp add: afterRequest_def currentState_Closed_keep [OF s1 k'])
  show ?thesis
    using assms(3) by (simp add: Execute_def br ar onFailure_def Let_def)
qed

lemma closed_phase:
  assumes "state b = StateClosed"
    and "readyToTrip b = (\<lambda>n. K < ConsecutiveFailures n)"
    and "\<not> isSuccessful b (Some e)"
    and "expiry b = 0 \<or> (\<forall>(t, t') \<in> set ts. t \<le> expiry b \<and> t' \<le> expiry b)"
    and "unat (ConsecutiveFailures (counts b)) + length ts \<le> unat K"
  shows "state (performAll b (failedCalls r e ts)) = StateClosed \<and>
     unat (ConsecutiveFailures (counts (performAll b (failedCalls r e ts)))) =
       unat (ConsecutiveFailures (counts b)) + length ts \<and>
     readyToTrip (performAll b (failedCalls r e ts)) = readyToTrip b \<and>
     isSuccessful (performAll b (failedCalls r e ts)) = isSuccessful b \<and>
     maxRequests (performAll b (failedCalls r e ts)) = maxRequests b \<and>
     expiry (performAll b (failedCalls r e ts)) = expiry b"
  using assms
proof (induction ts arbitrary: b)
  case Nil
  then show ?case by (simp add: performAll_simps failedCalls_simps)
next
  case (Cons x ts)
  obtain t t' where x: "x = (t, t')" by (cases x)
  let ?c = "Counts_onFailure (Counts_onRequest (counts b))"
  let ?b' = "b\<lparr>counts := ?c\<rparr>"
  have lt: "unat (ConsecutiveFailures (counts b)) < unat K"
    using Cons.prems(5) by simp
  have cf: "unat (ConsecutiveFailures ?c) = unat (ConsecutiveFailures (counts b)) + 1"
    using unat_succ_below [OF lt]
    by (simp add: Counts_onFailure_fields Counts_onRequest_def)
  have nt: "\<not> readyToTrip b ?c"
    using lt cf by (simp add: Cons.prems(2) word_less_nat_alt)
  have ex: "expiry b = 0 \<or> (t \<le> expiry b \<and> t' \<le> expiry b)"
    using Cons.prems(4) x by auto
  have step: "perform b (CallExecute t (Returns r (Some e)) t') = ?b'"
    using failed_Closed_step [OF Cons.prems(1) ex Cons.prems(3)] nt by simp
  have p1: "state ?b' = StateClosed" using Cons.prems(1) by simp
  have p2: "readyToTrip ?b' = (\<lambda>n. K < ConsecutiveFailures n)" using Cons.prems(2) by simp
  have p3: "\<not> isSuccessful ?b' (Some e)" using Cons.prems(3) by simp
  have p4: "expiry ?b' = 0 \<or> (\<forall>(t, t') \<in> set ts. t \<le> expiry ?b' \<and> t' \<le> expiry ?b')"
    using Cons.prems(4) by auto
  have p5: "unat (ConsecutiveFailures (counts ?b')) + length ts \<le> unat K"
    using Cons.prems(5) cf by simp
  show ?case
    using Cons.IH [OF p1 p2 p3 p4 p5] cf
    by (simp add: x performAll_simps failedCalls_simps step del: perform.simps)
qed

lemma failed_Open_step:
  assumes "state b = StateOpen" and "maxRequests b \<noteq> 0" and "\<not> isSuccessful b (Some e)"
  shows "state (perform b (CallExecute t (Returns r (Some e)) t')) = StateOpen \<and>
     maxRequests (perform b (CallExecute t (Returns r (Some e)) t')) \<noteq> 0 \<and>
     \<not> isSuccessful (perform b (CallExecute t (Returns r (Some e)) t')) (Some e)"
proof (cases "expiry b < t")
  case False
  then have "beforeRequest b t = (b, generation b, Some ErrOpenState)"
    using assms(1) by (simp add: beforeRequest_def currentState_Open_wait)
  then show ?thesis
    using assms by (simp add: Execute_def)
next
  case True
  let ?h = "setState b StateHalfOpen t"
  let ?h1 = "?h\<lparr>counts := Counts_onRequest (counts ?h)\<rparr>"
  have hs: "state ?h = StateHalfOpen" and hc: "counts ?h = zeroCounts"
    and hg: "generation ?h = generation b + 1"
    using assms(1) by (simp_all add: setState_fields)
  have hm: "\<not> maxRequests ?h \<le> Requests (counts ?h)"
    using assms(2) by (simp add: hc zeroCounts_def setState_config)
  have br: "beforeRequest b t = (?h1, generation b + 1, None)"
    using hs hm by (simp add: beforeRequest_def currentState_Open_due [OF assms(1) True])
  have s1: "state ?h1 = StateHalfOpen" using hs by simp
  have ar: "afterRequest ?h1 (generation b + 1) False t' = setState ?h1 StateOpen t'"
    using hg by (simp add: afterRequest_def currentState_HalfOpen [OF s1] onFailure_def hs)
  have p: "perform b (CallExecute t (Returns r (Some e)) t') = setState ?h1 StateOpen t'"
    using assms(3) by (simp add: Execute_def br ar setState_config)
  have "state (setState ?h1 StateOpen t') = StateOpen"
    using s1 by (simp add: setState_fields)
  moreover have "maxRequests (setState ?h1 StateOpen t') = maxRequests b"
    by (simp add: setState_config)
  moreover have "isSuccessful (setState ?h1 StateOpen t') = isSuccessful b"
    by (simp add: setState_config)
  ultimately show ?thesis
    using assms(2,3) by (simp only: p) simp
qed

lemma open_phase:
  assumes "state b = StateOpen" and "maxRequests b \<noteq> 0" and "\<not> isSuccessful b (Some e)"
  shows "state (performAll b (failedCalls r e ts :: ('r, 'e, 'p) call list)) = StateOpen"
  using assms
proof (induction ts arbitrary: b)
  case Nil
  then show ?case by (simp add: performAll_simps failedCalls_simps)
next
  case (Cons x ts)
  obtain t t' where x: "x = (t, t')" by (cases x)
  let ?b' = "perform b (CallExecute t (Returns r (Some e)) t' :: ('r, 'e, 'p) call)"
  have "state ?b' = StateOpen \<and> maxRequests ?b' \<noteq> 0 \<and> \<not> isSuccessful ?b' (Some e)"
    by (rule failed_Open_step [OF Cons.prems])
  then have s: "state ?b' = StateOpen" "maxRequests ?b' \<noteq> 0" "\<not> isSuccessful ?b' (Some e)"
    by blast+
  show ?case
    using Cons.IH [OF s]
    by (simp add: x performAll_simps failedCalls_simps del: perform.simps)
qed

lemma never_trips:
  assumes "state b = StateClosed" and "\<And>n. \<not> readyToTrip b n"
    and "\<not> isSuccessful b (Some e)" and "expiry b = 0"
  shows "state (performAll b (failedCalls r e ts :: ('r, 'e, 'p) call list)) = StateClosed"
  using assms
proof (induction ts arbitrary: b)
  case Nil
  then show ?case by (simp add: performAll_simps failedCalls_simps)
next
  case (Cons x ts)
  obtain t t' where x: "x = (t, t')" by (cases x)
  let ?b' = "b\<lparr>counts := Counts_onFailure (Counts_onRequest (counts b))\<rparr>"
  have ex: "expiry b = 0 \<or> (t \<le> expiry b \<and> t' \<le> expiry b)"
    using Cons.prems(4) by simp
  have step: "perform b (CallExecute t (Returns r (Some e)) t' :: ('r, 'e, 'p) call) = ?b'"
    using failed_Closed_step [OF Cons.prems(1) ex Cons.prems(3)] Cons.prems(2) by simp
  have "state (performAll ?b' (failedCalls r e ts :: ('r, 'e, 'p) call list)) = StateClosed"
    using Cons.prems by (intro Cons.IH) simp_all
  then show ?case
    by (simp add: x performAll_simps failedCalls_simps step del: perform.simps)
qed

lemma trip_step:
  fixes K :: "32 word"
  assumes "state b = StateClosed"
    and "readyToTrip b = (\<lambda>n. K < ConsecutiveFailures n)"
    and "\<not> isSuccessful b (Some e)"
    and "expiry b = 0 \<or> (t \<le> expiry b \<and> t' \<le> expiry b)"
    and "unat (ConsecutiveFailures (counts b)) = unat K"
    and "unat K < 2 ^ 32 - 1"
    and "maxRequests b \<noteq> 0"
  shows "state (perform b (CallExecute t (Returns r (Some e)) t')) = StateOpen \<and>
     maxRequests (perform b (CallExecute t (Returns r (Some e)) t')) \<noteq> 0 \<and>
     \<not> isSuccessful (perform b (CallExecute t (Returns r (Some e)) t')) (Some e)"
proof -
  let ?c = "Counts_onFailure (Counts_onRequest (counts b))"
  have "unat (ConsecutiveFailures (counts b)) + unat (1 :: 32 word) < 2 ^ LENGTH(32)"
    using assms(5,6) by simp
  then have "unat (ConsecutiveFailures (counts b) + 1) =
      unat (ConsecutiveFailures (counts b)) + unat (1 :: 32 word)"
    by (simp only: unat_add_lem)
  then have "unat K < unat (ConsecutiveFailures ?c)"
    using assms(5) by (simp add: Counts_onFailure_fields Counts_onRequest_def)
  then have "readyToTrip b ?c"
    by (simp add: assms(2) word_less_nat_alt)
  then have p: "perform b (CallExecute t (Returns r (Some e)) t') =
      setState (b\<lparr>counts := ?c\<rparr>) StateOpen t'"
    using failed_Closed_step [OF assms(1) assms(4) assms(3)] by simp
  have "state (setState (b\<lparr>counts := ?c\<rparr>) StateOpen t') = StateOpen"
    using assms(1) by (simp add: setState_fields)
  moreover have "maxRequests (setState (b\<lparr>counts := ?c\<rparr>) StateOpen t') = maxRequests b"
    by (simp add: setState_config)
  moreover have "isSuccessful (setState (b\<lparr>counts := ?c\<rparr>) StateOpen t') = isSuccessful b"
    by (simp add: setState_config)
  ultimately show ?thesis
    using assms(3,7) by (simp only: p) simp
qed

lemma failures_trip:
  fixes K :: "32 word"
  assumes cl: "state c = StateClosed" and z: "counts c = zeroCounts"
    and m: "maxRequests c \<noteq> 0"
    and rt: "readyToTrip c = (\<lambda>n. K < ConsecutiveFailures n)"
    and f: "\<not> isSuccessful c (Some e)"
    and ex: "expiry c = 0 \<or> (\<forall>(t, t') \<in> set ts. t \<le> expiry c \<and> t' \<le> expiry c)"
    and rg: "unat K < 2 ^ 32 - 1 \<or> length ts < 2 ^ 32"
  shows "state (performAll c (failedCalls r e ts :: ('r, 'e, 'p) call list)) = StateOpen
     \<longleftrightarrow> unat K < length ts"
proof (cases "length ts \<le> unat K")
  case True
  have z0: "unat (ConsecutiveFailures (counts c)) = 0"
    by (simp add: z zeroCounts_def)
  have "state (performAll c (failedCalls r e ts :: ('r, 'e, 'p) call list)) = StateClosed"
    by (rule closed_phase [OF cl rt f ex, THEN conjunct1]) (simp add: z0 True)
  then show ?thesis using True by simp
next
  case False
  have kb: "unat K < 2 ^ 32"
    using unsigned_less [of K] by simp
  have k: "unat K < 2 ^ 32 - 1"
    using rg False kb by linarith
  let ?ts1 = "take (unat K) ts"
  obtain x ts2 where sp: "ts = ?ts1 @ x # ts2"
    using False by (metis append_take_drop_id drop_eq_Nil2 list.exhaust)
  obtain t t' where x: "x = (t, t')" by (cases x)
  have l1: "length ?ts1 = unat K" using False by simp
  have ex1: "expiry c = 0 \<or> (\<forall>(t, t') \<in> set ?ts1. t \<le> expiry c \<and> t' \<le> expiry c)"
    using ex by (auto dest: in_set_takeD)
  have z0: "unat (ConsecutiveFailures (counts c)) = 0"
    by (simp add: z zeroCounts_def)
  let ?c1 = "performAll c (failedCalls r e ?ts1 :: ('r, 'e, 'p) call list)"
  have c1: "state ?c1 = StateClosed \<and>
     unat (ConsecutiveFailures (counts ?c1)) = unat (ConsecutiveFailures (counts c)) + length ?ts1 \<and>
     readyToTrip ?c1 = readyToTrip c \<and> isSuccessful ?c1 = isSuccessful c \<and>
     maxRequests ?c1 = maxRequests c \<and> expiry ?c1 = expiry c"
    by (rule closed_phase [OF cl rt f ex1]) (simp add: z0)
  have xin: "x \<in> set ts" by (subst sp) simp
  have ex2: "expiry ?c1 = 0 \<or> (t \<le> expiry ?c1 \<and> t' \<le> expiry ?c1)"
    using ex xin x c1 by auto
  let ?c2 = "perform ?c1 (CallExecute t (Returns r (Some e)) t' :: ('r, 'e, 'p) call)"
  have "state ?c2 = StateOpen \<and> maxRequests ?c2 \<noteq> 0 \<and> \<not> isSuccessful ?c2 (Some e)"
  proof (rule trip_step [OF _ _ _ ex2 _ k])
    show "state ?c1 = StateClosed" using c1 by simp
    show "readyToTrip ?c1 = (\<lambda>n. K < ConsecutiveFailures n)" using c1 rt by simp
    show "\<not> isSuccessful ?c1 (Some e)" using c1 f by simp
    show "unat (ConsecutiveFailures (counts ?c1)) = unat K" using c1 z0 l1 by simp
    show "maxRequests ?c1 \<noteq> 0" using c1 m by simp
  qed
  then have "state (performAll ?c2 (failedCalls r e ts2 :: ('r, 'e, 'p) call list)) = StateOpen"
    by (intro open_phase) simp_all
  moreover have "performAll c (failedCalls r e ts :: ('r, 'e, 'p) call list) =
      performAll ?c2 (failedCalls r e ts2 :: ('r, 'e, 'p) call list)"
    by (subst sp) (simp add: x performAll_simps failedCalls_simps del: perform.simps)
  ultimately show ?thesis
    using False by simp
qed

lemma closed_failure_recorded:
  assumes "currentState b now = (b1, StateClosed, G)"
  shows "afterRequest b G False now =
        (if readyToTrip b1 (Counts_onFailure (counts b1))
         then setState (b1\<lparr>counts := Counts_onFailure (counts b1)\<rparr>) StateOpen now
         else b1\<lparr>counts := Counts_onFailure (counts b1)\<rparr>)"
    and "state (afterRequest b G False now) = StateOpen \<longleftrightarrow>
         readyToTrip b1 (Counts_onFailure (counts b1))"
proof -
  have s1: "state b1 = StateClosed"
    using currentState_snd [OF assms] by simp
  show a: "afterRequest b G False now =
        (if readyToTrip b1 (Counts_onFailure (counts b1))
         then setState (b1\<lparr>counts := Counts_onFailure (counts b1)\<rparr>) StateOpen now
         else b1\<lparr>counts := Counts_onFailure (counts b1)\<rparr>)"
    using assms by (simp add: afterRequest_def onFailure_def Let_def)
  show "state (afterRequest b G False now) = StateOpen \<longleftrightarrow>
         readyToTrip b1 (Counts_onFailure (counts b1))"
    using s1 by (simp add: a setState_fields)
qed

section \<open>The claims\<close>

text \<open>
  C1 (admission control). Let \<open>b1\<close>, \<open>s\<close> and \<open>gen\<close> be the breaker, the state and the
  generation that \<^verbatim>\<open>currentState\<close> leaves at the start of \<^verbatim>\<open>beforeRequest\<close>, that is,
  after the lazy transition that is due, if any. If \<open>s\<close> is open, the call is rejected with
  \<^verbatim>\<open>ErrOpenState\<close> and the breaker is \<open>b1\<close>, no counter changed. If \<open>s\<close> is half-open and
  \<^verbatim>\<open>Requests\<close> has reached \<^verbatim>\<open>maxRequests\<close>, it is rejected with \<^verbatim>\<open>ErrTooManyRequests\<close> and
  the breaker is \<open>b1\<close>. Otherwise the call is admitted (no error), the breaker is \<open>b1\<close> with
  \<^verbatim>\<open>Requests\<close> one higher and nothing else changed, and the generation returned is the one
  of \<open>b1\<close>.
\<close>

theorem beforeRequest_admission:
  assumes "currentState b now = (b1, s, gen)"
  shows "s = state b1 \<and> gen = generation b1 \<and>
    (s = StateOpen \<longrightarrow> beforeRequest b now = (b1, gen, Some ErrOpenState)) \<and>
    (s = StateHalfOpen \<and> maxRequests b1 \<le> Requests (counts b1) \<longrightarrow>
       beforeRequest b now = (b1, gen, Some ErrTooManyRequests)) \<and>
    (s \<noteq> StateOpen \<and> \<not> (s = StateHalfOpen \<and> maxRequests b1 \<le> Requests (counts b1)) \<longrightarrow>
       beforeRequest b now =
         (b1\<lparr>counts := (counts b1)\<lparr>Requests := Requests (counts b1) + 1\<rparr>\<rparr>, gen, None))"
  using assms currentState_snd [OF assms]
  by (auto simp: beforeRequest_def Counts_onRequest_def)

theorem beforeRequest_admission_witness:
  "beforeRequest (demoOpen 0) 5 = (demoOpen 0, 2, Some ErrOpenState) \<and>
   beforeRequest (fst (beforeRequest (demoHalfOpen 0) 70000000001)) 70000000002 =
     (fst (beforeRequest (demoHalfOpen 0) 70000000001), 3, Some ErrTooManyRequests) \<and>
   beforeRequest (demoClosed 0) 5 =
     ((demoClosed 0)\<lparr>counts := zeroCounts\<lparr>Requests := 1\<rparr>\<rparr>, 1, None)"
proof -
  have o: "currentState (demoOpen 0) 5 = (demoOpen 0, StateOpen, 2)"
    by (simp add: currentState_def demo_defs)
  let ?h = "fst (beforeRequest (demoHalfOpen 0) 70000000001)"
  have h: "currentState ?h 70000000002 = (?h, StateHalfOpen, 3)"
    by (simp add: request_defs demo_defs)
  have hr: "maxRequests ?h \<le> Requests (counts ?h)"
    by (simp add: request_defs demo_defs)
  have c: "currentState (demoClosed 0) 5 = (demoClosed 0, StateClosed, 1)"
    by (simp add: currentState_def demo_defs)
  have cc: "counts (demoClosed 0) = zeroCounts"
    by (simp add: demo_defs)
  show ?thesis
    using beforeRequest_admission [OF o] beforeRequest_admission [OF h]
      beforeRequest_admission [OF c] hr cc
    by (simp add: zeroCounts_def)
qed

text \<open>
  C2 (stale outcomes). Let \<open>b1\<close>, \<open>s\<close> and \<open>gen\<close> be what \<^verbatim>\<open>currentState\<close> leaves at the
  start of \<^verbatim>\<open>afterRequest\<close>. If \<open>gen\<close> differs from the generation \<open>G\<close> captured at
  admission, \<^verbatim>\<open>afterRequest\<close> returns the breaker \<open>b1\<close> as it is: state, generation, counts
  and expiry are those after the resolution, whatever the verdict.
\<close>

theorem afterRequest_stale:
  assumes "currentState b now = (b1, s, gen)" and "gen \<noteq> G"
  shows "afterRequest b G verdict now = b1 \<and>
         state (afterRequest b G verdict now) = s \<and>
         generation (afterRequest b G verdict now) = gen \<and>
         counts (afterRequest b G verdict now) = counts b1 \<and>
         expiry (afterRequest b G verdict now) = expiry b1"
  using assms currentState_snd [OF assms(1)] by (simp add: afterRequest_def)

theorem afterRequest_stale_witness:
  "afterRequest (fst (beforeRequest (demoHalfOpen 0) 70000000001)) 1 False 70000000002 =
     fst (beforeRequest (demoHalfOpen 0) 70000000001)"
proof -
  let ?h = "fst (beforeRequest (demoHalfOpen 0) 70000000001)"
  have h: "currentState ?h 70000000002 = (?h, StateHalfOpen, 3)"
    by (simp add: request_defs demo_defs)
  have "(3 :: 64 word) \<noteq> 1" by simp
  from afterRequest_stale [OF h this] show ?thesis by simp
qed

text \<open>
  C3 (failures while closed). Let the resolution at the start of \<^verbatim>\<open>afterRequest\<close> give a
  closed breaker \<open>b1\<close> in the generation \<open>G\<close> of the admission. A failure is counted
  first, the trip predicate is then applied to the counts with the failure in them, and the
  breaker is open afterwards exactly when the predicate holds of these counts.
  Consequently, let \<open>c\<close> be closed with all counts zero, with \<^verbatim>\<open>maxRequests\<close> not zero
  (as the constructor leaves it) and with the trip predicate
  ``more than \<open>K\<close> consecutive failures''; let \<open>N\<close> calls of \<^verbatim>\<open>Execute\<close> follow one
  another, each returning an error that the classifier counts as a failure, none of them
  after the end of a clearing interval of \<open>c\<close>; and let \<open>K < 2\<^sup>3\<^sup>2 - 1\<close> or
  \<open>N < 2\<^sup>3\<^sup>2\<close>. Then the breaker is open after the \<open>N\<close> calls exactly when
  \<open>N > K\<close>. The default predicate is the one with \<open>K = 5\<close>.
\<close>

theorem closed_failure_protocol:
  fixes K :: "32 word"
  shows "(currentState b now = (b1, StateClosed, G) \<longrightarrow>
      afterRequest b G False now =
        (if readyToTrip b1 (Counts_onFailure (counts b1))
         then setState (b1\<lparr>counts := Counts_onFailure (counts b1)\<rparr>) StateOpen now
         else b1\<lparr>counts := Counts_onFailure (counts b1)\<rparr>) \<and>
      (state (afterRequest b G False now) = StateOpen \<longleftrightarrow>
         readyToTrip b1 (Counts_onFailure (counts b1)))) \<and>
   (state c = StateClosed \<and> counts c = zeroCounts \<and> maxRequests c \<noteq> 0 \<and>
    readyToTrip c = (\<lambda>n. K < ConsecutiveFailures n) \<and> \<not> isSuccessful c (Some e) \<and>
    (expiry c = 0 \<or> (\<forall>(t, t') \<in> set ts. t \<le> expiry c \<and> t' \<le> expiry c)) \<and>
    (unat K < 2 ^ 32 - 1 \<or> length ts < 2 ^ 32) \<longrightarrow>
      (state (performAll c (failedCalls r e ts :: ('r, 'e, 'p) call list)) = StateOpen
         \<longleftrightarrow> unat K < length ts)) \<and>
   defaultReadyToTrip = (\<lambda>n. 5 < ConsecutiveFailures n)"
proof (intro conjI impI)
  assume "currentState b now = (b1, StateClosed, G)"
  then show "afterRequest b G False now =
        (if readyToTrip b1 (Counts_onFailure (counts b1))
         then setState (b1\<lparr>counts := Counts_onFailure (counts b1)\<rparr>) StateOpen now
         else b1\<lparr>counts := Counts_onFailure (counts b1)\<rparr>)"
    and "state (afterRequest b G False now) = StateOpen \<longleftrightarrow>
         readyToTrip b1 (Counts_onFailure (counts b1))"
    by (rule closed_failure_recorded)+
next
  assume h: "state c = StateClosed \<and> counts c = zeroCounts \<and> maxRequests c \<noteq> 0 \<and>
    readyToTrip c = (\<lambda>n. K < ConsecutiveFailures n) \<and> \<not> isSuccessful c (Some e) \<and>
    (expiry c = 0 \<or> (\<forall>(t, t') \<in> set ts. t \<le> expiry c \<and> t' \<le> expiry c)) \<and>
    (unat K < 2 ^ 32 - 1 \<or> length ts < 2 ^ 32)"
  show "state (performAll c (failedCalls r e ts :: ('r, 'e, 'p) call list)) = StateOpen
         \<longleftrightarrow> unat K < length ts"
    by (rule failures_trip) (use h in blast)+
next
  show "defaultReadyToTrip = (\<lambda>n. 5 < ConsecutiveFailures n)"
    by (simp add: fun_eq_iff defaultReadyToTrip_def)
qed

theorem closed_failure_protocol_witness:
  "state (afterRequest (demoClosed 0) 1 False 2) \<noteq> StateOpen \<and>
   state (afterRequest ((demoClosed 0)\<lparr>counts := zeroCounts\<lparr>ConsecutiveFailures := 5\<rparr>\<rparr>) 1 False 2)
     = StateOpen \<and>
   state (performAll (demoClosed 0)
     (failedCalls None (RequestError ()) [(1, 2), (3, 4), (5, 6), (7, 8), (9, 10), (11, 12)]
        :: (unit, unit, unit) call list)) = StateOpen \<and>
   state (performAll (demoClosed 0)
     (failedCalls None (RequestError ()) [(1, 2), (3, 4), (5, 6), (7, 8), (9, 10)]
        :: (unit, unit, unit) call list)) \<noteq> StateOpen"
proof -
  let ?five = "(demoClosed 0)\<lparr>counts := zeroCounts\<lparr>ConsecutiveFailures := 5\<rparr>\<rparr>"
  have c0: "currentState (demoClosed 0) 2 = (demoClosed 0, StateClosed, 1)"
    by (simp add: currentState_def demo_defs)
  have n0: "\<not> readyToTrip (demoClosed 0) (Counts_onFailure (counts (demoClosed 0)))"
    by (simp add: demo_defs defaultReadyToTrip_def Counts_onFailure_def word_less_nat_alt)
  have c5: "currentState ?five 2 = (?five, StateClosed, 1)"
    by (simp add: currentState_def demo_defs)
  have n5: "readyToTrip ?five (Counts_onFailure (counts ?five))"
    by (simp add: demo_defs defaultReadyToTrip_def Counts_onFailure_def word_less_nat_alt)
  have h: "state (demoClosed 0) = StateClosed" "counts (demoClosed 0) = zeroCounts"
    "maxRequests (demoClosed 0) \<noteq> 0"
    "readyToTrip (demoClosed 0) = (\<lambda>n. 5 < ConsecutiveFailures n)"
    "\<not> isSuccessful (demoClosed 0) (Some (RequestError ()))"
    "expiry (demoClosed 0) = 0"
    by (simp_all add: demo_defs defaultReadyToTrip_def defaultIsSuccessful_def fun_eq_iff)
  have k: "unat (5 :: 32 word) < 2 ^ 32 - 1"
    by simp
  have a: "state (afterRequest (demoClosed 0) 1 False 2) \<noteq> StateOpen"
    using closed_failure_protocol [of "demoClosed 0" 2 "demoClosed 0" 1] c0 n0 by blast
  have b: "state (afterRequest ?five 1 False 2) = StateOpen"
    using closed_failure_protocol [of ?five 2 ?five 1] c5 n5 by blast
  have c: "state (performAll (demoClosed 0)
     (failedCalls None (RequestError ()) [(1, 2), (3, 4), (5, 6), (7, 8), (9, 10), (11, 12)]
        :: (unit, unit, unit) call list)) = StateOpen"
    using closed_failure_protocol [where ?'p = unit and ?'r = unit and c = "demoClosed 0"
        and K = 5 and e = "RequestError ()" and r = None
        and ts = "[(1, 2), (3, 4), (5, 6), (7, 8), (9, 10), (11, 12)]",
        THEN conjunct2, THEN conjunct1] h k
    by simp
  have d: "state (performAll (demoClosed 0)
     (failedCalls None (RequestError ()) [(1, 2), (3, 4), (5, 6), (7, 8), (9, 10)]
        :: (unit, unit, unit) call list)) \<noteq> StateOpen"
    using closed_failure_protocol [where ?'p = unit and ?'r = unit and c = "demoClosed 0"
        and K = 5 and e = "RequestError ()" and r = None
        and ts = "[(1, 2), (3, 4), (5, 6), (7, 8), (9, 10)]",
        THEN conjunct2, THEN conjunct1] h k
    by simp
  show ?thesis
    using a b c d by blast
qed

text \<open>
  The bound on \<open>K\<close> and \<open>N\<close> is needed: \<^verbatim>\<open>ConsecutiveFailures\<close> is a \<^verbatim>\<open>uint32\<close>, so
  the predicate ``more than \<open>2\<^sup>3\<^sup>2 - 1\<close> consecutive failures'' never holds, and after
  \<open>2\<^sup>3\<^sup>2\<close> failed calls in a row, more than the threshold, the breaker is not open.
\<close>

theorem closed_failure_protocol_counterexample:
  "unat (4294967295 :: 32 word) < length (replicate 4294967296 (1 :: int, 1 :: int)) \<and>
   state (performAll (NewCircuitBreaker maxThresholdSettings 0 ())
     (failedCalls None (RequestError ()) (replicate 4294967296 (1, 1))
        :: (unit, unit, unit) call list)) \<noteq> StateOpen"
proof -
  let ?b = "NewCircuitBreaker maxThresholdSettings 0 ()"
  have cl: "state ?b = StateClosed"
    by (simp add: New_fields)
  have nt: "\<not> readyToTrip ?b n" for n
  proof -
    have "unat (ConsecutiveFailures n) < 2 ^ 32"
      using unsigned_less [of "ConsecutiveFailures n"] by simp
    then show ?thesis
      by (simp add: New_fields maxThresholdSettings_def word_less_nat_alt)
  qed
  have f: "\<not> isSuccessful ?b (Some (RequestError ()))"
    by (simp add: New_fields maxThresholdSettings_def defaultIsSuccessful_def)
  have ex: "expiry ?b = 0"
    by (simp add: NewCircuitBreaker_def toNewGeneration_fields maxThresholdSettings_def
        defaultInterval_def)
  have "state (performAll ?b (failedCalls None (RequestError ()) ts
        :: (unit, unit, unit) call list)) = StateClosed" for ts
    by (rule never_trips [OF cl nt f ex])
  then have "state (performAll ?b (failedCalls None (RequestError ())
      (replicate 4294967296 (1, 1)) :: (unit, unit, unit) call list)) \<noteq> StateOpen"
    by (simp only: State.distinct not_False_eq_True)
  moreover have "unat (4294967295 :: 32 word) < length (replicate 4294967296 (1 :: int, 1 :: int))"
    by (simp only: length_replicate) simp
  ultimately show ?thesis
    by (rule conjI [rotated])
qed

text \<open>
  C4 (outcomes while half-open). Let the resolution at the start of \<^verbatim>\<open>afterRequest\<close> give
  a half-open breaker \<open>b1\<close> in the generation \<open>G\<close> of the admission. A success is counted
  (\<^verbatim>\<open>TotalSuccesses\<close> and \<^verbatim>\<open>ConsecutiveSuccesses\<close> one higher, \<^verbatim>\<open>ConsecutiveFailures\<close> zero);
  if \<^verbatim>\<open>ConsecutiveSuccesses\<close> has then reached \<^verbatim>\<open>maxRequests\<close> the breaker goes to closed
  and all counts are zero, otherwise it stays half-open with the success counted. A failure
  sends the breaker to open, with no condition on the counters.
\<close>

theorem halfOpen_outcome:
  assumes "currentState b now = (b1, StateHalfOpen, G)"
  shows "(maxRequests b1 \<le> ConsecutiveSuccesses (counts b1) + 1 \<longrightarrow>
            afterRequest b G True now =
              setState (b1\<lparr>counts := Counts_onSuccess (counts b1)\<rparr>) StateClosed now \<and>
            state (afterRequest b G True now) = StateClosed \<and>
            counts (afterRequest b G True now) = zeroCounts) \<and>
         (\<not> maxRequests b1 \<le> ConsecutiveSuccesses (counts b1) + 1 \<longrightarrow>
            afterRequest b G True now = b1\<lparr>counts := Counts_onSuccess (counts b1)\<rparr> \<and>
            state (afterRequest b G True now) = StateHalfOpen) \<and>
         afterRequest b G False now = setState b1 StateOpen now \<and>
         state (afterRequest b G False now) = StateOpen \<and>
         counts (afterRequest b G False now) = zeroCounts"
proof -
  have s1: "state b1 = StateHalfOpen"
    using currentState_snd [OF assms] by simp
  have ok: "afterRequest b G True now = onSuccess b1 StateHalfOpen now"
    using assms by (simp add: afterRequest_def)
  have ko: "afterRequest b G False now = onFailure b1 StateHalfOpen now"
    using assms by (simp add: afterRequest_def)
  show ?thesis
    using s1 by (simp add: ok ko onSuccess_def onFailure_def Let_def Counts_onSuccess_fields
        setState_fields)
qed

theorem halfOpen_outcome_witness:
  "state (afterRequest (demoHalfOpen 1) 3 True 70000000001) = StateClosed \<and>
   counts (afterRequest (demoHalfOpen 1) 3 True 70000000001) = zeroCounts \<and>
   state (afterRequest (demoHalfOpen 2) 3 True 70000000001) = StateHalfOpen \<and>
   ConsecutiveSuccesses (counts (afterRequest (demoHalfOpen 2) 3 True 70000000001)) = 1 \<and>
   state (afterRequest (demoHalfOpen 2) 3 False 70000000001) = StateOpen"
proof -
  have h1: "currentState (demoHalfOpen 1) 70000000001 = (demoHalfOpen 1, StateHalfOpen, 3)"
    by (simp add: currentState_def demo_defs)
  have m1: "maxRequests (demoHalfOpen 1) \<le> ConsecutiveSuccesses (counts (demoHalfOpen 1)) + 1"
    by (simp add: demo_defs)
  have h2: "currentState (demoHalfOpen 2) 70000000001 = (demoHalfOpen 2, StateHalfOpen, 3)"
    by (simp add: currentState_def demo_defs)
  have m2: "\<not> maxRequests (demoHalfOpen 2) \<le> ConsecutiveSuccesses (counts (demoHalfOpen 2)) + 1"
    by (simp add: demo_defs word_le_nat_alt)
  have c2: "ConsecutiveSuccesses (counts (demoHalfOpen 2)) = 0"
    by (simp add: demo_defs)
  have a: "state (afterRequest (demoHalfOpen 1) 3 True 70000000001) = StateClosed \<and>
      counts (afterRequest (demoHalfOpen 1) 3 True 70000000001) = zeroCounts"
    using halfOpen_outcome [OF h1] m1 by blast
  have b: "state (afterRequest (demoHalfOpen 2) 3 True 70000000001) = StateHalfOpen"
    using halfOpen_outcome [OF h2] m2 by blast
  have "afterRequest (demoHalfOpen 2) 3 True 70000000001 =
        (demoHalfOpen 2)\<lparr>counts := Counts_onSuccess (counts (demoHalfOpen 2))\<rparr>"
    using halfOpen_outcome [OF h2] m2 by blast
  then have d: "ConsecutiveSuccesses (counts (afterRequest (demoHalfOpen 2) 3 True 70000000001)) = 1"
    using c2 by (simp add: Counts_onSuccess_def)
  have c: "state (afterRequest (demoHalfOpen 2) 3 False 70000000001) = StateOpen"
    using halfOpen_outcome [OF h2] by blast
  show ?thesis
    using a b c d by blast
qed

text \<open>
  C5 (lazy transition). If the breaker is open and its expiry is before \<open>now\<close>, then each
  operation that resolves the state at \<open>now\<close> first sends it to half-open:
  \<^verbatim>\<open>currentState\<close> and \<^verbatim>\<open>State\<close> return half-open, and \<^verbatim>\<open>beforeRequest\<close> and
  \<^verbatim>\<open>afterRequest\<close> do what they do on the breaker already sent to half-open. If the breaker
  is half-open, no clock reading changes anything: \<^verbatim>\<open>currentState\<close> and \<^verbatim>\<open>State\<close> return
  it as it is, \<^verbatim>\<open>beforeRequest\<close> leaves it half-open, and \<^verbatim>\<open>afterRequest\<close> with a
  generation that is not the current one (no outcome is recorded) returns it as it is.
\<close>

theorem lazy_transition:
  "(state b = StateOpen \<and> expiry b < now \<longrightarrow>
      currentState b now = (setState b StateHalfOpen now, StateHalfOpen, generation b + 1) \<and>
      CircuitBreaker_State b now = (setState b StateHalfOpen now, StateHalfOpen) \<and>
      beforeRequest b now = beforeRequest (setState b StateHalfOpen now) now \<and>
      state (fst (beforeRequest b now)) = StateHalfOpen \<and>
      afterRequest b G verdict now = afterRequest (setState b StateHalfOpen now) G verdict now) \<and>
   (state b = StateHalfOpen \<longrightarrow>
      currentState b now = (b, StateHalfOpen, generation b) \<and>
      CircuitBreaker_State b now = (b, StateHalfOpen) \<and>
      state (fst (beforeRequest b now)) = StateHalfOpen \<and>
      (G \<noteq> generation b \<longrightarrow> afterRequest b G verdict now = b))"
proof (intro conjI impI)
  assume h: "state b = StateHalfOpen"
  show "currentState b now = (b, StateHalfOpen, generation b)"
    using h by (rule currentState_HalfOpen)
  show "CircuitBreaker_State b now = (b, StateHalfOpen)"
    using h by (simp add: CircuitBreaker_State_def currentState_HalfOpen)
  show "state (fst (beforeRequest b now)) = StateHalfOpen"
    using h by (simp add: beforeRequest_def currentState_HalfOpen)
  show "afterRequest b G verdict now = b" if "G \<noteq> generation b"
    using h that by (simp add: afterRequest_def currentState_HalfOpen)
next
  assume o: "state b = StateOpen \<and> expiry b < now"
  let ?h = "setState b StateHalfOpen now"
  have hs: "state ?h = StateHalfOpen"
    using o by (simp add: setState_fields)
  have cur: "currentState b now = (?h, StateHalfOpen, generation b + 1)"
    using o by (simp add: currentState_Open_due)
  have cur': "currentState ?h now = (?h, StateHalfOpen, generation b + 1)"
    using o hs by (simp add: currentState_HalfOpen setState_fields)
  show "currentState b now = (?h, StateHalfOpen, generation b + 1)"
    by (rule cur)
  show "CircuitBreaker_State b now = (?h, StateHalfOpen)"
    by (simp add: CircuitBreaker_State_def cur)
  show "beforeRequest b now = beforeRequest ?h now"
    by (simp only: beforeRequest_def cur cur')
  show "state (fst (beforeRequest b now)) = StateHalfOpen"
    using hs by (simp add: beforeRequest_def cur)
  show "afterRequest b G verdict now = afterRequest ?h G verdict now"
    by (simp only: afterRequest_def cur cur')
qed

theorem lazy_transition_witness:
  "CircuitBreaker_State (demoOpen 0) 70000000000 = (demoHalfOpen 0, StateHalfOpen) \<and>
   CircuitBreaker_State (demoHalfOpen 0) 990000000000 = (demoHalfOpen 0, StateHalfOpen) \<and>
   afterRequest (demoHalfOpen 0) 2 True 990000000000 = demoHalfOpen 0"
proof -
  have o: "state (demoOpen 0) = StateOpen \<and> expiry (demoOpen 0) < 70000000000"
    by (simp add: demo_defs)
  have h: "state (demoHalfOpen 0) = StateHalfOpen"
    by (simp add: demo_defs)
  have g: "(2 :: 64 word) \<noteq> generation (demoHalfOpen 0)"
    by (simp add: demo_defs)
  show ?thesis
    using lazy_transition [of "demoOpen 0" 70000000000 2 True]
      lazy_transition [of "demoHalfOpen 0" 990000000000 2 True] o h g
    by (simp add: demoHalfOpen_def)
qed

text \<open>
  C6 (the consecutive counters exclude each other). After the construction of a breaker
  from any settings and any sequence of operations on it (reading the state, admissions,
  recorded outcomes with any generation and verdict, whole \<^verbatim>\<open>Execute\<close> calls with any
  outcome, state changes and new generations, at any clock readings), a positive
  \<^verbatim>\<open>ConsecutiveSuccesses\<close> comes with \<^verbatim>\<open>ConsecutiveFailures\<close> zero, and a positive
  \<^verbatim>\<open>ConsecutiveFailures\<close> with \<^verbatim>\<open>ConsecutiveSuccesses\<close> zero.
\<close>

theorem counters_exclusive:
  "(0 < ConsecutiveSuccesses (counts (performAll (NewCircuitBreaker st now w) cs)) \<longrightarrow>
      ConsecutiveFailures (counts (performAll (NewCircuitBreaker st now w) cs)) = 0) \<and>
   (0 < ConsecutiveFailures (counts (performAll (NewCircuitBreaker st now w) cs)) \<longrightarrow>
      ConsecutiveSuccesses (counts (performAll (NewCircuitBreaker st now w) cs)) = 0)"
  using exclusive_performAll [OF exclusive_New, of st now w cs]
  by (auto simp: exclusive_def)

theorem counters_exclusive_witness:
  "0 < ConsecutiveSuccesses (counts (performAll (NewCircuitBreaker (demoSettings 0) 0 [])
          [CallExecute 1 (Returns None None :: (unit, unit, unit) outcome) 2])) \<and>
   ConsecutiveFailures (counts (performAll (NewCircuitBreaker (demoSettings 0) 0 [])
          [CallExecute 1 (Returns None None :: (unit, unit, unit) outcome) 2])) = 0 \<and>
   0 < ConsecutiveFailures (counts (performAll (NewCircuitBreaker (demoSettings 0) 0 [])
          [CallExecute 1 (Panics () :: (unit, unit, unit) outcome) 2])) \<and>
   ConsecutiveSuccesses (counts (performAll (NewCircuitBreaker (demoSettings 0) 0 [])
          [CallExecute 1 (Panics () :: (unit, unit, unit) outcome) 2])) = 0"
proof -
  have s: "0 < ConsecutiveSuccesses (counts (performAll (NewCircuitBreaker (demoSettings 0) 0 [])
          [CallExecute 1 (Returns None None :: (unit, unit, unit) outcome) 2]))"
    by (simp add: request_defs demo_defs)
  have f: "0 < ConsecutiveFailures (counts (performAll (NewCircuitBreaker (demoSettings 0) 0 [])
          [CallExecute 1 (Panics () :: (unit, unit, unit) outcome) 2]))"
    by (simp add: request_defs demo_defs)
  show ?thesis
    using s f
      counters_exclusive [of "demoSettings 0" 0 "[]"
        "[CallExecute 1 (Returns None None :: (unit, unit, unit) outcome) 2]"]
      counters_exclusive [of "demoSettings 0" 0 "[]"
        "[CallExecute 1 (Panics () :: (unit, unit, unit) outcome) 2]"]
    by blast
qed



text \<open>
  C8 (construction). For all settings, right after \<^verbatim>\<open>NewCircuitBreaker\<close> the state is
  closed and every count is zero, also as \<^verbatim>\<open>State\<close> and \<^verbatim>\<open>Counts\<close> report them at any
  later time. \<^verbatim>\<open>MaxRequests\<close> 0 becomes 1; a \<^verbatim>\<open>Timeout\<close> not above 0 becomes 60 seconds;
  with an \<^verbatim>\<open>Interval\<close> not above 0 the interval is 0 and, after any sequence of
  operations, the lazy rule leaves a closed breaker as it is at every clock reading (its
  counts are not cleared by time); without a trip predicate the breaker trips on more than
  5 consecutive failures; without a classifier exactly the nil error is a success.
\<close>

theorem NewCircuitBreaker_defaults:
  "state (NewCircuitBreaker st now w) = StateClosed \<and>
   CircuitBreaker_Counts (NewCircuitBreaker st now w) = zeroCounts \<and>
   snd (CircuitBreaker_State (NewCircuitBreaker st now w) now') = StateClosed \<and>
   counts (fst (CircuitBreaker_State (NewCircuitBreaker st now w) now')) = zeroCounts \<and>
   maxRequests (NewCircuitBreaker st now w) = (if MaxRequests st = 0 then 1 else MaxRequests st) \<and>
   timeout (NewCircuitBreaker st now w) = (if Timeout st \<le> 0 then 60 * 1000000000 else Timeout st) \<and>
   (Interval st \<le> 0 \<longrightarrow>
      interval (NewCircuitBreaker st now w) = 0 \<and>
      (state (performAll (NewCircuitBreaker st now w) cs) = StateClosed \<longrightarrow>
         currentState (performAll (NewCircuitBreaker st now w) cs) t =
           (performAll (NewCircuitBreaker st now w) cs, StateClosed,
            generation (performAll (NewCircuitBreaker st now w) cs)))) \<and>
   (ReadyToTrip st = None \<longrightarrow>
      readyToTrip (NewCircuitBreaker st now w) c = (5 < ConsecutiveFailures c)) \<and>
   (IsSuccessful st = None \<longrightarrow>
      isSuccessful (NewCircuitBreaker st now w) err = (err = None))"
proof -
  obtain b' s where cs: "CircuitBreaker_State (NewCircuitBreaker st now w) now' = (b', s)"
    by (cases "CircuitBreaker_State (NewCircuitBreaker st now w) now'") auto
  have never: "currentState (performAll (NewCircuitBreaker st now w) cs) t =
           (performAll (NewCircuitBreaker st now w) cs, StateClosed,
            generation (performAll (NewCircuitBreaker st now w) cs))"
    if "Interval st \<le> 0" "state (performAll (NewCircuitBreaker st now w) cs) = StateClosed"
    using noInterval_performAll [OF noInterval_New [OF that(1)], of now w cs] that(2)
    by (simp add: noInterval_def currentState_Closed_keep)
  show ?thesis
    using New_State [OF cs] never
    by (simp add: cs New_fields CircuitBreaker_Counts_def defaultReadyToTrip_def
        defaultIsSuccessful_def)
qed

theorem NewCircuitBreaker_defaults_witness:
  "maxRequests (NewCircuitBreaker (demoSettings 0) 0 []) = 1 \<and>
   timeout (NewCircuitBreaker (demoSettings 0) 0 []) = 60000000000 \<and>
   interval (NewCircuitBreaker (demoSettings 0) 0 []) = 0 \<and>
   fst (snd (currentState (performAll (NewCircuitBreaker (demoSettings 0) 0 [])
       [CallExecute 1 (Returns None None :: (unit, unit, unit) outcome) 2]) 99000000000))
     = StateClosed \<and>
   readyToTrip (NewCircuitBreaker (demoSettings 0) 0 [])
     (zeroCounts\<lparr>ConsecutiveFailures := 6\<rparr>) \<and>
   isSuccessful (NewCircuitBreaker (demoSettings 0) 0 []) None"
proof -
  have s: "MaxRequests (demoSettings 0) = 0" "Timeout (demoSettings 0) \<le> 0"
    "Interval (demoSettings 0) \<le> 0" "ReadyToTrip (demoSettings 0) = None"
    "IsSuccessful (demoSettings 0) = None"
    by (simp_all add: demoSettings_def)
  have c: "state (performAll (NewCircuitBreaker (demoSettings 0) 0 [])
       [CallExecute 1 (Returns None None :: (unit, unit, unit) outcome) 2]) = StateClosed"
    by (simp add: request_defs demo_defs)
  have six: "(5 :: 32 word) < ConsecutiveFailures (zeroCounts\<lparr>ConsecutiveFailures := 6\<rparr>)"
    by (simp add: word_less_nat_alt)
  show ?thesis
    using NewCircuitBreaker_defaults [of "demoSettings 0" 0 "[]" 0
        "[CallExecute 1 (Returns None None :: (unit, unit, unit) outcome) 2]" 99000000000
        "zeroCounts\<lparr>ConsecutiveFailures := 6\<rparr>" None] s c six
    by simp
qed

text \<open>
  C9 (\<^verbatim>\<open>setState\<close>). Setting the state that is already current returns the breaker as it
  is: generation, counts, expiry and the observer's world are unchanged. Setting another
  state gives the new state, the generation one higher, all counts zero, the expiry of the
  entering state (closed: \<open>now\<close> plus the interval, or zero without an interval; open:
  \<open>now\<close> plus the timeout; half-open: zero), and the world is the result of one call of
  the observer, if there is one, with the name, the previous state and the new state.
\<close>

theorem setState_contract:
  "(state b = s \<longrightarrow> setState b s now = b) \<and>
   (state b \<noteq> s \<longrightarrow>
      state (setState b s now) = s \<and>
      generation (setState b s now) = generation b + 1 \<and>
      counts (setState b s now) = zeroCounts \<and>
      expiry (setState b s now) =
        (case s of
           StateClosed \<Rightarrow> if interval b = 0 then 0 else now + interval b
         | StateOpen \<Rightarrow> now + timeout b
         | StateHalfOpen \<Rightarrow> 0) \<and>
      world (setState b s now) =
        (case onStateChange b of
           None \<Rightarrow> world b
         | Some f \<Rightarrow> f (name b) (state b) s (world b)))"
  using setState_same [of b s now] setState_fields [of b s now] setState_expiry [of b s now]
  by blast

theorem setState_contract_witness:
  "setState (demoClosed 0) StateClosed 5 = demoClosed 0 \<and>
   state (setState (demoClosed 0) StateOpen 5) = StateOpen \<and>
   generation (setState (demoClosed 0) StateOpen 5) = 2 \<and>
   expiry (setState (demoClosed 0) StateOpen 5) = 60000000005 \<and>
   world (setState (demoClosed 0) StateOpen 5) = [(''demo'', StateClosed, StateOpen)]"
proof -
  have s: "state (demoClosed 0) = StateClosed" "generation (demoClosed 0) = 1"
    "timeout (demoClosed 0) = 60000000000" "world (demoClosed 0) = []"
    "name (demoClosed 0) = ''demo''"
    "onStateChange (demoClosed 0) = Some (\<lambda>n from to log. log @ [(n, from, to)])"
    by (simp_all add: demo_defs)
  show ?thesis
    using setState_contract [of "demoClosed 0" StateClosed 5]
      setState_contract [of "demoClosed 0" StateOpen 5] s
    by simp
qed

text \<open>
  C10 (the handle of \<^verbatim>\<open>Allow\<close> is not idempotent). The handle that \<^verbatim>\<open>Allow\<close> returns
  runs \<^verbatim>\<open>afterRequest\<close> with the generation of the admission each time it is called.
  If the breaker is still in that generation after a first and after a second call with
  success, both successes are counted: \<^verbatim>\<open>TotalSuccesses\<close> and \<^verbatim>\<open>ConsecutiveSuccesses\<close> are
  2 higher than after the admission, which raised \<^verbatim>\<open>Requests\<close> by 1, and \<^verbatim>\<open>Requests\<close>
  is as the admission left it. When the admission found all counts zero, successes plus
  failures then exceed the requests.
\<close>

theorem done_not_idempotent:
  assumes "Allow t now = (t1, Inr done)"
    and "generation (cb (done True now1 t1)) = generation (cb t1)"
    and "generation (cb (done True now2 (done True now1 t1))) = generation (cb t1)"
  shows "done verdict now' t' = t'\<lparr>cb := afterRequest (cb t') (generation (cb t1)) verdict now'\<rparr> \<and>
    Requests (counts (cb t1)) = Requests (counts (fst (currentState (cb t) now))) + 1 \<and>
    Requests (counts (cb (done True now2 (done True now1 t1)))) = Requests (counts (cb t1)) \<and>
    TotalSuccesses (counts (cb (done True now2 (done True now1 t1)))) =
      TotalSuccesses (counts (cb t1)) + 2 \<and>
    ConsecutiveSuccesses (counts (cb (done True now2 (done True now1 t1)))) =
      ConsecutiveSuccesses (counts (cb t1)) + 2 \<and>
    TotalFailures (counts (cb (done True now2 (done True now1 t1)))) =
      TotalFailures (counts (cb t1)) \<and>
    (counts (fst (currentState (cb t) now)) = zeroCounts \<longrightarrow>
       unat (Requests (counts (cb (done True now2 (done True now1 t1))))) <
       unat (TotalSuccesses (counts (cb (done True now2 (done True now1 t1))))) +
       unat (TotalFailures (counts (cb (done True now2 (done True now1 t1))))))"
proof -
  obtain b1 gen where br: "beforeRequest (cb t) now = (b1, gen, None)"
    and t1: "t1 = t\<lparr>cb := b1\<rparr>"
    and d: "done = (\<lambda>success now' u. u\<lparr>cb := afterRequest (cb u) gen success now'\<rparr>)"
    using assms(1)
    by (cases "beforeRequest (cb t) now") (auto simp: Allow_def split: option.splits)
  have g: "gen = generation b1" and o: "state b1 \<noteq> StateOpen"
    and c1: "counts b1 = Counts_onRequest (counts (fst (currentState (cb t) now)))"
    using beforeRequest_admitted [OF br] by simp_all
  let ?b2 = "afterRequest b1 (generation b1) True now1"
  have g2: "generation ?b2 = generation b1"
    using assms(2) by (simp add: d t1 g)
  have b2: "?b2 = b1\<lparr>counts := Counts_onSuccess (counts b1)\<rparr>"
    using success_recorded [OF o g2] .
  let ?b3 = "afterRequest ?b2 (generation ?b2) True now2"
  have g3: "generation ?b3 = generation ?b2"
    using assms(3) g2 by (simp add: d t1 g)
  have o2: "state ?b2 \<noteq> StateOpen"
    using o by (simp add: b2)
  have b3: "?b3 = ?b2\<lparr>counts := Counts_onSuccess (counts ?b2)\<rparr>"
    using success_recorded [OF o2 g3] .
  have e: "cb (done True now2 (done True now1 t1)) = ?b3"
    by (simp add: d t1 g g2)
  have c3: "counts ?b3 = Counts_onSuccess (Counts_onSuccess (counts b1))"
    by (simp add: b3) (simp add: b2)
  have two: "unat (1 :: 32 word) < unat (2 :: 32 word)"
    by simp
  show ?thesis
    using two
    by (simp add: e c3 Counts_onSuccess_fields) (simp add: d t1 g c1 Counts_onRequest_def zeroCounts_def)
qed

theorem done_not_idempotent_witness:
  "(case snd (Allow (NewTwoStepCircuitBreaker (demoSettings 0) 0 []) 1) of
      Inl err \<Rightarrow> False
    | Inr done \<Rightarrow>
        Requests (counts (cb (done True 3 (done True 2
          (fst (Allow (NewTwoStepCircuitBreaker (demoSettings 0) 0 []) 1)))))) = 1 \<and>
        TotalSuccesses (counts (cb (done True 3 (done True 2
          (fst (Allow (NewTwoStepCircuitBreaker (demoSettings 0) 0 []) 1)))))) = 2 \<and>
        ConsecutiveSuccesses (counts (cb (done True 3 (done True 2
          (fst (Allow (NewTwoStepCircuitBreaker (demoSettings 0) 0 []) 1)))))) = 2)"
proof -
  let ?t = "NewTwoStepCircuitBreaker (demoSettings 0) 0 []"
  let ?t1 = "\<lparr>cb = (demoClosed 0)\<lparr>counts := zeroCounts\<lparr>Requests := 1\<rparr>\<rparr>\<rparr>"
  let ?done = "\<lambda>success now' (u :: (unit, (string \<times> State \<times> State) list) TwoStepCircuitBreaker).
      u\<lparr>cb := afterRequest (cb u) 1 success now'\<rparr>"
  have a: "Allow ?t 1 = (?t1, Inr ?done)"
    by (simp add: Allow_def NewTwoStepCircuitBreaker_def request_defs demo_defs)
  have g1: "generation (cb (?done True 2 ?t1)) = generation (cb ?t1)"
    by (simp add: request_defs demo_defs)
  have g2: "generation (cb (?done True 3 (?done True 2 ?t1))) = generation (cb ?t1)"
    by (simp add: request_defs demo_defs)
  have r: "Requests (counts (cb (?done True 3 (?done True 2 ?t1)))) =
      Requests (counts (cb ?t1))"
    and s: "TotalSuccesses (counts (cb (?done True 3 (?done True 2 ?t1)))) =
      TotalSuccesses (counts (cb ?t1)) + 2"
    and c: "ConsecutiveSuccesses (counts (cb (?done True 3 (?done True 2 ?t1)))) =
      ConsecutiveSuccesses (counts (cb ?t1)) + 2"
    using done_not_idempotent [OF a g1 g2] by blast+
  have v: "Requests (counts (cb ?t1)) = 1" "TotalSuccesses (counts (cb ?t1)) = 0"
    "ConsecutiveSuccesses (counts (cb ?t1)) = 0"
    by (simp_all add: zeroCounts_def)
  have "Requests (counts (cb (?done True 3 (?done True 2 ?t1)))) = 1 \<and>
        TotalSuccesses (counts (cb (?done True 3 (?done True 2 ?t1)))) = 2 \<and>
        ConsecutiveSuccesses (counts (cb (?done True 3 (?done True 2 ?t1)))) = 2"
    unfolding r s c v by simp
  then show ?thesis
    by (simp only: a snd_conv fst_conv sum.case)
qed

end
